theory Spec2Isabelle
  imports Main "HOL-Library.Word" "HOL-Library.Sublist"
begin

section \<open>Untyped configuration trees\<close>

text \<open>
  A \<^verbatim>\<open>map[string]any\<close> produced by the JSON round trip of \<^verbatim>\<open>utils.ConvertToMap\<close> holds
  scalars (nil, bool, float64, string), slices (\<^verbatim>\<open>[]any\<close>) and nested maps. Scalars are the
  values of a type parameter: Go compares two of them with \<^verbatim>\<open>!=\<close> by dynamic type and value,
  which is equality of the parameter type (JSON carries no NaN, the one float64 that differs
  from itself). A Go map is an association list with distinct
  keys; the order of the list is the order in which \<^verbatim>\<open>range\<close> visits the entries in the run
  at hand (Go leaves that order unspecified), and a lookup \<^verbatim>\<open>m[k]\<close> is \<open>map_of\<close>.
\<close>

datatype 's cfg = Scalar 's | Sequence "'s cfg list" | Tree "(string \<times> 's cfg) list"

type_synonym 's cfgmap = "(string \<times> 's cfg) list"

text \<open>The run-time panic of comparing two interface values of an uncomparable dynamic type.\<close>

datatype panic = UncomparableType

text \<open>
  Modelled from the spec: \<^verbatim>\<open>utils.BuildBaseKey\<close> is not among the sources; the key namespace
  convention of the specification joins the segments of a key with a slash.
\<close>

fun BuildBaseKey :: "string list \<Rightarrow> string" where
  "BuildBaseKey [] = []"
| "BuildBaseKey [k] = k"
| "BuildBaseKey (k # ks) = k @ ''/'' @ BuildBaseKey ks"

definition buildNewKey :: "string \<Rightarrow> string \<Rightarrow> string" where
  "buildNewKey previousKey currentKey =
     (if previousKey \<noteq> [] then BuildBaseKey [previousKey, currentKey] else currentKey)"

text \<open>
  \<^verbatim>\<open>updatedVal != previousVal\<close> on two interface values, reached only when the updated value
  is not a map: values of different dynamic types are unequal, two scalars are compared by
  value, and two values of the same uncomparable type (two slices, two maps) panic.
\<close>

fun ifaceNotEqual :: "'s cfg \<Rightarrow> 's cfg \<Rightarrow> panic + bool" where
  "ifaceNotEqual (Scalar a) (Scalar b) = Inr (a \<noteq> b)"
| "ifaceNotEqual (Sequence xs) (Sequence ys) = Inl UncomparableType"
| "ifaceNotEqual (Tree m) (Tree n) = Inl UncomparableType"
| "ifaceNotEqual u p = Inr True"

text \<open>
  \<^verbatim>\<open>walkMapForChange\<close>: the loop over \<^verbatim>\<open>updatedMap\<close> is the recursion over its entries, the
  remaining iterations being the call on the rest of the list with the same
  \<^verbatim>\<open>previousMap\<close> and \<^verbatim>\<open>changedKey\<close>. A failed type assertion leaves \<^verbatim>\<open>previousSubMap\<close> nil;
  a nil and an empty \<^verbatim>\<open>updatedSubMap\<close> both return the empty key there, so the test
  \<^verbatim>\<open>updatedSubMap != nil\<close> is the inner loop finding no key.
\<close>

fun walkMapForChange :: "'s cfgmap \<Rightarrow> 's cfgmap \<Rightarrow> string \<Rightarrow> panic + string" where
  "walkMapForChange previousMap [] changedKey = Inr []"
| "walkMapForChange previousMap ((updatedKey, updatedVal) # rest) changedKey =
     (case map_of previousMap updatedKey of
        None \<Rightarrow> Inr (buildNewKey changedKey updatedKey)
      | Some previousVal \<Rightarrow>
          (case updatedVal of
             Tree updatedSubMap \<Rightarrow>
               (case previousVal of
                  Tree previousSubMap \<Rightarrow>
                    (case walkMapForChange previousSubMap updatedSubMap
                            (buildNewKey changedKey updatedKey) of
                       Inl e \<Rightarrow> Inl e
                     | Inr key \<Rightarrow>
                         if length key > 0 then Inr key
                         else walkMapForChange previousMap rest changedKey)
                | _ \<Rightarrow>
                    (case updatedSubMap of
                       [] \<Rightarrow> Inr []
                     | (k, v) # more \<Rightarrow>
                         Inr (buildNewKey (buildNewKey changedKey updatedKey) k)))
           | _ \<Rightarrow>
               (case ifaceNotEqual updatedVal previousVal of
                  Inl e \<Rightarrow> Inl e
                | Inr True \<Rightarrow> Inr (buildNewKey changedKey updatedKey)
                | Inr False \<Rightarrow> walkMapForChange previousMap rest changedKey)))"

text \<open>
  The diff of \<^verbatim>\<open>isPrivateOverride\<close>: the walk forward and, when it finds nothing, the walk
  with the arguments swapped. The empty key is the result "no change".
\<close>

definition structuralDiff :: "'s cfgmap \<Rightarrow> 's cfgmap \<Rightarrow> panic + string" where
  "structuralDiff previousMap updatedMap =
     (case walkMapForChange previousMap updatedMap [] of
        Inl e \<Rightarrow> Inl e
      | Inr changedKey \<Rightarrow>
          if changedKey = [] then walkMapForChange updatedMap previousMap []
          else Inr changedKey)"


subsection \<open>What the diff is expected to return\<close>


text \<open>The representation invariant of a Go map: no key occurs twice, at any level.\<close>

fun wfTree :: "'s cfg \<Rightarrow> bool" where
  "wfTree (Scalar a) = True"
| "wfTree (Sequence xs) = (\<forall>x\<in>set xs. wfTree x)"
| "wfTree (Tree m) = (distinct (map fst m) \<and> (\<forall>(k, v)\<in>set m. wfTree v))"

text \<open>A tree all of whose leaves are scalars: no slice occurs in it.\<close>

fun scalarLeaves :: "'s cfg \<Rightarrow> bool" where
  "scalarLeaves (Scalar a) = True"
| "scalarLeaves (Sequence xs) = False"
| "scalarLeaves (Tree m) = (\<forall>(k, v)\<in>set m. scalarLeaves v)"

text \<open>
  Two values are the same Go value when they agree up to the order in which the entries of
  their maps are listed: the same value seen by two \<^verbatim>\<open>range\<close> loops.
\<close>

fun sameTree :: "'s cfg \<Rightarrow> 's cfg \<Rightarrow> bool" where
  "sameTree (Scalar a) t = (t = Scalar a)"
| "sameTree (Sequence xs) t =
     (case t of Sequence ys \<Rightarrow> list_all2 sameTree xs ys | _ \<Rightarrow> False)"
| "sameTree (Tree m) t =
     (case t of
        Tree n \<Rightarrow>
          set (map fst m) = set (map fst n) \<and>
          (\<forall>(k, v)\<in>set m. case map_of n k of None \<Rightarrow> False | Some w \<Rightarrow> sameTree v w)
      | _ \<Rightarrow> False)"


text \<open>Every entry of \<open>es\<close> has a counterpart in \<open>prev\<close> that is the same scalar-leaved value.\<close>

definition matches :: "'s cfgmap \<Rightarrow> 's cfgmap \<Rightarrow> bool" where
  "matches prev es =
     (\<forall>(k, w)\<in>set es. \<exists>v. map_of prev k = Some v \<and> sameTree v w \<and> scalarLeaves w \<and> wfTree w)"

section \<open>The private-override check\<close>

definition writableKey :: string where
  "writableKey = ''Writable''"

text \<open>
  The capability of a \<^verbatim>\<open>configuration.Client\<close> the reconciler consumes:
  \<^verbatim>\<open>GetConfigurationKeys\<close> returns the keys and an error, which is \<open>None\<close> for nil.
\<close>

record Client =
  GetConfigurationKeys :: "string \<Rightarrow> string list \<times> string option"

text \<open>\<^verbatim>\<open>strings.Contains\<close>: the second string occurs in the first as a contiguous run.\<close>

fun Contains :: "string \<Rightarrow> string \<Rightarrow> bool" where
  "Contains [] substr = (substr = [])"
| "Contains (c # cs) substr = (prefix substr (c # cs) \<or> Contains cs substr)"

definition isKeyInPrivate :: "Client \<Rightarrow> string \<Rightarrow> bool" where
  "isKeyInPrivate privateConfigClient changedKey =
     (case GetConfigurationKeys privateConfigClient writableKey of
        (keys, Some err) \<Rightarrow> True
      | (keys, None) \<Rightarrow>
          (let changedKey = writableKey @ ''/'' @ changedKey
           in list_ex (\<lambda>key. Contains key changedKey) keys))"

section \<open>Insecure secrets\<close>

text \<open>
  \<^verbatim>\<open>config.InsecureSecretsInfo\<close>, whose declaration is not among the sources, with the two
  fields \<^verbatim>\<open>getSecretNamesChanged\<close> reads: a secret name and the secret data, a
  \<^verbatim>\<open>map[string]string\<close> that may be nil (\<open>None\<close>). \<^verbatim>\<open>reflect.DeepEqual\<close> on two such structs is
  equality of the records. \<^verbatim>\<open>config.InsecureSecrets\<close> is a map from a key to such a struct,
  listed in the order \<^verbatim>\<open>range\<close> visits it.
\<close>

record InsecureSecretsInfo =
  SecretName :: string
  SecretData :: "(string \<rightharpoonup> string) option"

type_synonym InsecureSecrets = "(string \<times> InsecureSecretsInfo) list"

text \<open>Indexing a Go map: the zero value of the struct for a key that is absent.\<close>

definition secretAt :: "InsecureSecrets \<Rightarrow> string \<Rightarrow> InsecureSecretsInfo" where
  "secretAt vals key =
     (case map_of vals key of
        None \<Rightarrow> \<lparr>SecretName = [], SecretData = None\<rparr>
      | Some val \<Rightarrow> val)"

text \<open>The names the first loop of \<^verbatim>\<open>getSecretNamesChanged\<close> appends for one previous entry.\<close>

definition namesForPrevious :: "InsecureSecrets \<Rightarrow> string \<times> InsecureSecretsInfo \<Rightarrow> string list" where
  "namesForPrevious curVals entry =
     (let key = fst entry; prevVal = snd entry; curVal = secretAt curVals key
      in if SecretData curVal = None then [SecretName prevVal]
         else if prevVal \<noteq> curVal then
           SecretName curVal #
             (if SecretName prevVal \<noteq> SecretName curVal then [SecretName prevVal] else [])
         else [])"

text \<open>The names the second loop appends for one current entry.\<close>

definition namesForCurrent :: "InsecureSecrets \<Rightarrow> string \<times> InsecureSecretsInfo \<Rightarrow> string list" where
  "namesForCurrent prevVals entry =
     (let key = fst entry; curVal = snd entry
      in if SecretData (secretAt prevVals key) = None then [SecretName curVal] else [])"

definition getSecretNamesChanged :: "InsecureSecrets \<Rightarrow> InsecureSecrets \<Rightarrow> string list" where
  "getSecretNamesChanged prevVals curVals =
     concat (map (namesForPrevious curVals) prevVals) @
     concat (map (namesForCurrent prevVals) curVals)"



text \<open>
  \<^verbatim>\<open>reflect.DeepEqual\<close> on two \<^verbatim>\<open>config.InsecureSecrets\<close> values: a nil map equals only a nil
  map, and two maps (lists with distinct keys) are equal when they hold the same entries,
  in whatever order.
\<close>

fun DeepEqual :: "InsecureSecrets option \<Rightarrow> InsecureSecrets option \<Rightarrow> bool" where
  "DeepEqual None None = True"
| "DeepEqual (Some a) (Some b) = (set a = set b)"
| "DeepEqual a b = False"

text \<open>Ranging over and indexing a nil map is ranging over and indexing an empty one.\<close>

definition entriesOf :: "InsecureSecrets option \<Rightarrow> InsecureSecrets" where
  "entriesOf m = (case m of None \<Rightarrow> [] | Some vals \<Rightarrow> vals)"


section \<open>The writable update dispatcher\<close>

text \<open>
  What the dispatcher reads of the service configuration, through \<^verbatim>\<open>GetLogLevel\<close>,
  \<^verbatim>\<open>GetInsecureSecrets\<close> (nil when the section is absent) and \<^verbatim>\<open>GetTelemetryInfo().Interval\<close>;
  everything else of the configuration object is the extension of the record.
\<close>

record Configuration =
  LogLevel :: string
  InsecureSecrets :: "InsecureSecrets option"
  TelemetryInterval :: string

text \<open>A \<^verbatim>\<open>time.Duration\<close> is a signed 64-bit count of nanoseconds.\<close>

type_synonym Duration = "64 word"

definition MaxInt64 :: Duration where
  "MaxInt64 = 0x7FFFFFFFFFFFFFFF"

text \<open>
  The side effects of the reconciler on its collaborators: the logging threshold, the
  rotation callback of the secret provider, the metrics manager, the signal on the
  \<^verbatim>\<open>configUpdated\<close> channel, the callback of a custom section and the provider
  unsubscription. Lines written to the log are not effects.
\<close>

datatype effect =
    SetLogLevel string
  | SecretUpdatedAtSecretName string
  | ResetInterval Duration
  | ConfigUpdated
  | StopWatching

text \<open>
  What the processor finds when it asks: whether the container holds a secret provider
  and a metrics manager, and whether the \<^verbatim>\<open>configUpdated\<close> channel is not nil.
\<close>

record Processor =
  secretProviderExt :: bool
  metricsManager :: bool
  configUpdated :: bool

text \<open>
  The functions called here whose code is not among the sources are parameters:
  \<^verbatim>\<open>utils.ConvertToMap\<close> (an error or the map), \<^verbatim>\<open>utils.MergeValues\<close> (the configuration
  after the call and the error, if any), \<^verbatim>\<open>utils.RemoveUnusedSettings\<close> (the filtered map as
  the interface value it is passed on as, and the error, if any) and \<^verbatim>\<open>time.ParseDuration\<close>.
  A value of type \<^verbatim>\<open>any\<close> is an option, \<open>None\<close> being the nil interface. The merge is
  taken to leave the values read before it as they were: it does not change the previous
  map of secrets in place.
\<close>

record ('a, 's, 'z) externals =
  ConvertToMap :: "'a option \<Rightarrow> string + 's cfgmap"
  MergeValues :: "'z Configuration_scheme \<Rightarrow> 'a option \<Rightarrow> 'z Configuration_scheme \<times> string option"
  RemoveUnusedSettings :: "'a option \<Rightarrow> string \<Rightarrow> string set \<Rightarrow> 'a option \<times> string option"
  ParseDuration :: "string \<Rightarrow> string + Duration"

text \<open>The body of the telemetry case of the switch.\<close>

definition telemetryChanged ::
  "Processor \<Rightarrow> ('a, 's, 'z) externals \<Rightarrow> string \<Rightarrow> effect list" where
  "telemetryChanged cp ext currentTelemetryInterval =
     (case ParseDuration ext currentTelemetryInterval of
        Inl err \<Rightarrow> []
      | Inr parsed \<Rightarrow>
          (let interval = (if parsed = 0 then MaxInt64 else parsed)
           in if \<not> metricsManager cp then [] else [ResetInterval interval]))"

definition applyWritableUpdates ::
  "Processor \<Rightarrow> ('a, 's, 'z) externals \<Rightarrow> 'z Configuration_scheme \<Rightarrow> 'a option \<Rightarrow>
   'z Configuration_scheme \<times> effect list" where
  "applyWritableUpdates cp ext serviceConfig raw =
     (let previousInsecureSecrets = InsecureSecrets serviceConfig;
          previousLogLevel = LogLevel serviceConfig;
          previousTelemetryInterval = TelemetryInterval serviceConfig;
          merged = fst (MergeValues ext serviceConfig raw);
          currentInsecureSecrets = InsecureSecrets merged;
          currentLogLevel = LogLevel merged;
          currentTelemetryInterval = TelemetryInterval merged
      in (merged,
          if currentLogLevel \<noteq> previousLogLevel then [SetLogLevel (LogLevel merged)]
          else if currentInsecureSecrets \<noteq> None \<and>
                  \<not> DeepEqual currentInsecureSecrets previousInsecureSecrets then
            (if secretProviderExt cp then
               map SecretUpdatedAtSecretName
                 (getSecretNamesChanged (entriesOf previousInsecureSecrets)
                    (entriesOf currentInsecureSecrets))
             else [])
          else if currentTelemetryInterval \<noteq> previousTelemetryInterval then
            telemetryChanged cp ext currentTelemetryInterval
          else if configUpdated cp then [ConfigUpdated] else []))"

text \<open>The category of a side effect of the dispatcher.\<close>

datatype category = LogLevelCategory | SecretsCategory | TelemetryCategory | NotificationCategory
  | WatchCategory

fun categoryOf :: "effect \<Rightarrow> category" where
  "categoryOf (SetLogLevel l) = LogLevelCategory"
| "categoryOf (SecretUpdatedAtSecretName n) = SecretsCategory"
| "categoryOf (ResetInterval d) = TelemetryCategory"
| "categoryOf ConfigUpdated = NotificationCategory"
| "categoryOf StopWatching = WatchCategory"

section \<open>Common changes against private overrides\<close>

definition isPrivateOverride ::
  "('a, 's, 'z) externals \<Rightarrow> 'a option \<Rightarrow> 'a option \<Rightarrow> Client \<Rightarrow> panic + bool" where
  "isPrivateOverride ext previous updated privateConfigClient =
     (case ConvertToMap ext previous of
        Inl err \<Rightarrow> Inr True
      | Inr previousMap \<Rightarrow>
          (case ConvertToMap ext updated of
             Inl err \<Rightarrow> Inr True
           | Inr updatedMap \<Rightarrow>
               (case structuralDiff previousMap updatedMap of
                  Inl p \<Rightarrow> Inl p
                | Inr changedKey \<Rightarrow>
                    if changedKey = [] then Inr True
                    else if isKeyInPrivate privateConfigClient changedKey then Inr True
                    else Inr False)))"

definition processCommonConfigChange ::
  "Processor \<Rightarrow> ('a, 's, 'z) externals \<Rightarrow> 'z Configuration_scheme \<Rightarrow> 'a option \<Rightarrow> 'a option \<Rightarrow>
   Client \<Rightarrow> panic + 'z Configuration_scheme \<times> effect list" where
  "processCommonConfigChange cp ext fullServiceConfig previousCommonWritable raw privateConfigClient =
     (case isPrivateOverride ext previousCommonWritable raw privateConfigClient of
        Inl p \<Rightarrow> Inl p
      | Inr True \<Rightarrow> Inr (fullServiceConfig, [])
      | Inr False \<Rightarrow> Inr (applyWritableUpdates cp ext fullServiceConfig raw))"

section \<open>The watch loops\<close>

text \<open>
  What a \<^verbatim>\<open>select\<close> of a watch loop receives, in the order of arrival: the cancellation
  of the context, an error of the transport, a push of the provider, or the update
  stream found closed.
\<close>

datatype 'a event = Done | StreamError string | Update "'a option" | Closed

fun pushes :: "'a event list \<Rightarrow> 'a option list" where
  "pushes [] = []"
| "pushes (Update raw # evs) = raw # pushes evs"
| "pushes (e # evs) = pushes evs"

text \<open>
  The state of a loop: its flag, the configuration object it shares with the service, and
  the effects fired so far.
\<close>

record 'z watch =
  isFirstUpdate :: bool
  watchedConfig :: "'z Configuration_scheme"
  fired :: "effect list"

record ('z, 'a) commonWatch = "'z watch" +
  previousCommonWritable :: "'a option"

definition startWatch :: "'z Configuration_scheme \<Rightarrow> 'z watch" where
  "startWatch cfg = \<lparr>isFirstUpdate = True, watchedConfig = cfg, fired = []\<rparr>"

definition startCommonWatch :: "'z Configuration_scheme \<Rightarrow> ('z, 'a) commonWatch" where
  "startCommonWatch cfg =
     \<lparr>isFirstUpdate = True, watchedConfig = cfg, fired = [], previousCommonWritable = None\<rparr>"

text \<open>The update case of \<^verbatim>\<open>listenForPrivateChanges\<close>.\<close>

definition privateUpdate ::
  "Processor \<Rightarrow> ('a, 's, 'z) externals \<Rightarrow> Client \<Rightarrow> string \<Rightarrow> 'z watch \<Rightarrow> 'a option \<Rightarrow> 'z watch" where
  "privateUpdate cp ext configClient baseKey st raw =
     (let usedKeys = fst (GetConfigurationKeys configClient writableKey);
          rawMap = fst (RemoveUnusedSettings ext raw (BuildBaseKey [baseKey, writableKey])
                          (set usedKeys))
      in if isFirstUpdate st then st\<lparr>isFirstUpdate := False\<rparr>
         else (case applyWritableUpdates cp ext (watchedConfig st) rawMap of
                 (cfg, effs) \<Rightarrow> st\<lparr>watchedConfig := cfg, fired := fired st @ effs\<rparr>))"

fun listenForPrivateChanges ::
  "Processor \<Rightarrow> ('a, 's, 'z) externals \<Rightarrow> Client \<Rightarrow> string \<Rightarrow> 'a event list \<Rightarrow> 'z watch \<Rightarrow> 'z watch" where
  "listenForPrivateChanges cp ext configClient baseKey [] st = st"
| "listenForPrivateChanges cp ext configClient baseKey (Done # evs) st =
     st\<lparr>fired := fired st @ [StopWatching]\<rparr>"
| "listenForPrivateChanges cp ext configClient baseKey (StreamError ex # evs) st =
     listenForPrivateChanges cp ext configClient baseKey evs st"
| "listenForPrivateChanges cp ext configClient baseKey (Closed # evs) st = st"
| "listenForPrivateChanges cp ext configClient baseKey (Update raw # evs) st =
     listenForPrivateChanges cp ext configClient baseKey evs
       (privateUpdate cp ext configClient baseKey st raw)"

text \<open>
  The update case of \<^verbatim>\<open>listenForCommonChanges\<close>; \<open>baseKey\<close> is the base key already
  extended with the writable key.
\<close>

definition commonUpdate ::
  "Processor \<Rightarrow> ('a, 's, 'z) externals \<Rightarrow> Client \<Rightarrow> Client \<Rightarrow> string \<Rightarrow> ('z, 'a) commonWatch \<Rightarrow>
   'a option \<Rightarrow> panic + ('z, 'a) commonWatch" where
  "commonUpdate cp ext commonConfigClient privateConfigClient baseKey st raw =
     (let usedKeys = fst (GetConfigurationKeys commonConfigClient writableKey);
          rawMap = fst (RemoveUnusedSettings ext raw baseKey (set usedKeys))
      in if isFirstUpdate st then
           Inr (st\<lparr>isFirstUpdate := False, previousCommonWritable := rawMap\<rparr>)
         else
           (case processCommonConfigChange cp ext (watchedConfig st) (previousCommonWritable st)
                   rawMap privateConfigClient of
              Inl p \<Rightarrow> Inl p
            | Inr (cfg, effs) \<Rightarrow>
                Inr (st\<lparr>watchedConfig := cfg, fired := fired st @ effs,
                        previousCommonWritable := raw\<rparr>)))"

fun commonLoop ::
  "Processor \<Rightarrow> ('a, 's, 'z) externals \<Rightarrow> Client \<Rightarrow> Client \<Rightarrow> string \<Rightarrow> 'a event list \<Rightarrow>
   ('z, 'a) commonWatch \<Rightarrow> panic + ('z, 'a) commonWatch" where
  "commonLoop cp ext commonConfigClient privateConfigClient baseKey [] st = Inr st"
| "commonLoop cp ext commonConfigClient privateConfigClient baseKey (Done # evs) st =
     Inr (st\<lparr>fired := fired st @ [StopWatching]\<rparr>)"
| "commonLoop cp ext commonConfigClient privateConfigClient baseKey (StreamError ex # evs) st =
     commonLoop cp ext commonConfigClient privateConfigClient baseKey evs st"
| "commonLoop cp ext commonConfigClient privateConfigClient baseKey (Closed # evs) st = Inr st"
| "commonLoop cp ext commonConfigClient privateConfigClient baseKey (Update raw # evs) st =
     (case commonUpdate cp ext commonConfigClient privateConfigClient baseKey st raw of
        Inl p \<Rightarrow> Inl p
      | Inr st' \<Rightarrow> commonLoop cp ext commonConfigClient privateConfigClient baseKey evs st')"

definition listenForCommonChanges ::
  "Processor \<Rightarrow> ('a, 's, 'z) externals \<Rightarrow> Client \<Rightarrow> Client \<Rightarrow> string \<Rightarrow> 'a event list \<Rightarrow>
   ('z, 'a) commonWatch \<Rightarrow> panic + ('z, 'a) commonWatch" where
  "listenForCommonChanges cp ext commonConfigClient privateConfigClient baseKey evs st =
     commonLoop cp ext commonConfigClient privateConfigClient
       (BuildBaseKey [baseKey, writableKey]) evs st"

text \<open>
  \<^verbatim>\<open>ListenForCustomConfigChanges\<close>: the state is the flag and the values handed to
  \<^verbatim>\<open>changedCallback\<close> so far, with the effects fired. The receive of this loop does not
  test whether the stream is closed: a closed stream delivers the nil value. Without a
  configuration client the function returns before it watches anything.
\<close>

record 'a customWatch =
  customFirstUpdate :: bool
  changedCallback :: "'a option list"
  customFired :: "effect list"

definition startCustomWatch :: "'a customWatch" where
  "startCustomWatch = \<lparr>customFirstUpdate = True, changedCallback = [], customFired = []\<rparr>"

definition customUpdate :: "'a customWatch \<Rightarrow> 'a option \<Rightarrow> 'a customWatch" where
  "customUpdate st raw =
     (if customFirstUpdate st then st\<lparr>customFirstUpdate := False\<rparr>
      else st\<lparr>changedCallback := changedCallback st @ [raw]\<rparr>)"

fun customLoop :: "'a event list \<Rightarrow> 'a customWatch \<Rightarrow> 'a customWatch" where
  "customLoop [] st = st"
| "customLoop (Done # evs) st = st\<lparr>customFired := customFired st @ [StopWatching]\<rparr>"
| "customLoop (StreamError ex # evs) st = customLoop evs st"
| "customLoop (Closed # evs) st = customLoop evs (customUpdate st None)"
| "customLoop (Update raw # evs) st = customLoop evs (customUpdate st raw)"

definition ListenForCustomConfigChanges :: "bool \<Rightarrow> 'a event list \<Rightarrow> 'a customWatch" where
  "ListenForCustomConfigChanges configClient evs =
     (if \<not> configClient then startCustomWatch else customLoop evs startCustomWatch)"

section \<open>The authentication middleware\<close>

text \<open>\<^verbatim>\<open>strings.Split\<close> on a separator of one byte.\<close>

fun Split :: "string \<Rightarrow> char \<Rightarrow> string list" where
  "Split [] sep = [[]]"
| "Split (c # cs) sep =
     (if c = sep then [] # Split cs sep
      else (case Split cs sep of [] \<Rightarrow> [[c]] | p # ps \<Rightarrow> (c # p) # ps))"

text \<open>
  \<^verbatim>\<open>strings.EqualFold\<close> against a string of ASCII letters none of which is k or s: no rune
  outside ASCII folds to such a letter, so the comparison is that of the two strings
  with their ASCII capitals lowered.
\<close>

definition toLower :: "char \<Rightarrow> char" where
  "toLower c =
     (case map_of (zip ''ABCDEFGHIJKLMNOPQRSTUVWXYZ'' ''abcdefghijklmnopqrstuvwxyz'') c of
        None \<Rightarrow> c
      | Some l \<Rightarrow> l)"

definition EqualFold :: "string \<Rightarrow> string \<Rightarrow> bool" where
  "EqualFold s t = (map toLower s = map toLower t)"

text \<open>
  A request is its \<^verbatim>\<open>Authorization\<close> header, if it has one; \<^verbatim>\<open>Header.Get\<close> gives the empty
  string for a header that is missing. The handler either calls the inner handler or
  answers with \<^verbatim>\<open>http.Error\<close> and a status code.
\<close>

record Request =
  Authorization :: "string option"

definition HeaderGet :: "Request \<Rightarrow> string" where
  "HeaderGet r = (case Authorization r of None \<Rightarrow> [] | Some h \<Rightarrow> h)"

datatype response = Inner | Error nat

definition StatusInternalServerError :: nat where
  "StatusInternalServerError = 500"

definition StatusUnauthorized :: nat where
  "StatusUnauthorized = 401"

text \<open>\<^verbatim>\<open>IsJWTValid\<close> of the secret provider returns a boolean and an error (\<open>None\<close> for nil).\<close>

definition VaultAuthenticationHandlerFunc ::
  "(string \<Rightarrow> bool \<times> string option) \<Rightarrow> Request \<Rightarrow> response" where
  "VaultAuthenticationHandlerFunc IsJWTValid r =
     (let authHeader = HeaderGet r;
          authParts = Split authHeader CHR '' ''
      in if length authParts \<ge> 2 \<and> EqualFold (authParts ! 0) ''Bearer'' then
           (let token = authParts ! 1
            in case IsJWTValid token of
                 (validToken, Some err) \<Rightarrow> Error StatusInternalServerError
               | (validToken, None) \<Rightarrow>
                   if \<not> validToken then Error StatusUnauthorized else Inner)
         else Error StatusUnauthorized)"


section \<open>Example configurations\<close>





text \<open>
  Stand-ins for the functions that are parameters: the conversion of a value that already
  is a map, a merge whose outcome is the configuration \<open>target\<close>, a filter that removes
  nothing, and a parser that knows the durations of the examples (in nanoseconds).
\<close>

definition exampleExternals :: "Configuration \<Rightarrow> (string cfgmap, string, unit) externals" where
  "exampleExternals target =
     \<lparr>ConvertToMap = (\<lambda>v. case v of None \<Rightarrow> Inl ''nil'' | Some m \<Rightarrow> Inr m),
      MergeValues = (\<lambda>cfg raw. (target, None)),
      RemoveUnusedSettings = (\<lambda>raw baseKey usedKeys. (raw, None)),
      ParseDuration = (\<lambda>s. if s = ''0s'' then Inr 0
                            else if s = ''30s'' then Inr 30000000000
                            else if s = ''60s'' then Inr 60000000000
                            else Inl ''invalid duration'')\<rparr>"

definition exampleConfig :: Configuration where
  "exampleConfig = \<lparr>LogLevel = ''INFO'', InsecureSecrets = None, TelemetryInterval = ''30s''\<rparr>"

definition fullProcessor :: Processor where
  "fullProcessor = \<lparr>secretProviderExt = True, metricsManager = True, configUpdated = True\<rparr>"





text \<open>
  A common writable section before and after its log level changed, a private client
  whose section holds a log level of its own, a client whose query fails, and a common
  watch loop that has seen its first push.
\<close>

definition commonBefore :: "string cfgmap" where
  "commonBefore = [(''LogLevel'', Scalar ''INFO'')]"

definition commonAfter :: "string cfgmap" where
  "commonAfter = [(''LogLevel'', Scalar ''DEBUG'')]"

definition privateClient :: Client where
  "privateClient =
     \<lparr>GetConfigurationKeys = (\<lambda>name. ([''edgex/v3/core-data/Writable/LogLevel''], None))\<rparr>"

definition failingClient :: Client where
  "failingClient = \<lparr>GetConfigurationKeys = (\<lambda>name. ([], Some ''provider unavailable''))\<rparr>"


section \<open>Properties of the structural diff\<close>

subsection \<open>Values that are the same up to the order of their entries\<close>

lemma entry_lookup:
  assumes "set (map fst m) = set (map fst n)" and "distinct (map fst n)"
    and "\<forall>(k, v)\<in>set m. case map_of n k of None \<Rightarrow> False | Some w \<Rightarrow> R v w"
    and "(k, w) \<in> set n"
  shows "\<exists>v. map_of m k = Some v \<and> (k, v) \<in> set m \<and> R v w"
proof -
  from assms(4) have "k \<in> set (map fst n)" by force
  with assms(1) have "k \<in> set (map fst m)" by simp
  then obtain v where v: "map_of m k = Some v"
    by (metis map_of_eq_None_iff not_None_eq set_map)
  then have mem: "(k, v) \<in> set m" by (rule map_of_SomeD)
  from assms(2,4) have "map_of n k = Some w" by simp
  with assms(3) mem have "R v w" by fastforce
  with v mem show ?thesis by blast
qed

lemma sameTree_sym: "wfTree t \<Longrightarrow> wfTree u \<Longrightarrow> sameTree t u \<Longrightarrow> sameTree u t"
proof (induction t arbitrary: u)
  case (Scalar a)
  then show ?case by simp
next
  case (Sequence xs)
  then obtain ys where u: "u = Sequence ys" and all: "list_all2 sameTree xs ys"
    by (auto split: cfg.splits)
  have "list_all2 sameTree ys xs"
    unfolding list_all2_conv_all_nth
  proof (intro conjI allI impI)
    show "length ys = length xs" using all by (simp add: list_all2_lengthD)
  next
    fix i assume i: "i < length ys"
    then have ix: "i < length xs" using all by (simp add: list_all2_lengthD)
    have "sameTree (xs ! i) (ys ! i)" using all ix by (simp add: list_all2_nthD)
    moreover have "wfTree (xs ! i)" using Sequence.prems(1) ix by simp
    moreover have "wfTree (ys ! i)" using Sequence.prems(2) i u by simp
    ultimately show "sameTree (ys ! i) (xs ! i)"
      using Sequence.IH ix by (meson nth_mem)
  qed
  then show ?case using u by simp
next
  case (Tree m)
  then obtain n where u: "u = Tree n" and keys: "set (map fst m) = set (map fst n)"
    and ent: "\<forall>(k, v)\<in>set m. case map_of n k of None \<Rightarrow> False | Some w \<Rightarrow> sameTree v w"
    by (auto split: cfg.splits)
  have dn: "distinct (map fst n)" and dm: "distinct (map fst m)"
    using Tree.prems u by simp_all
  have "case map_of m k of None \<Rightarrow> False | Some v \<Rightarrow> sameTree w v" if kw: "(k, w) \<in> set n" for k w
  proof -
    from entry_lookup [OF keys dn ent kw]
    obtain v where v: "map_of m k = Some v" "(k, v) \<in> set m" "sameTree v w" by blast
    have "wfTree v" using Tree.prems(1) v(2) by auto
    moreover have "wfTree w" using Tree.prems(2) u kw by auto
    ultimately have "sameTree w v" using Tree.IH [of "(k, v)" v w] v by simp
    with v show ?thesis by simp
  qed
  then show ?case using u keys by auto
qed


lemma sameTree_scalarLeaves:
  "sameTree t u \<Longrightarrow> wfTree u \<Longrightarrow> scalarLeaves t \<Longrightarrow> scalarLeaves u"
proof (induction t arbitrary: u)
  case (Scalar a)
  then show ?case by simp
next
  case (Sequence xs)
  then show ?case by simp
next
  case (Tree m)
  from Tree.prems(1) obtain n where u: "u = Tree n" and keys: "set (map fst m) = set (map fst n)"
    and ent: "\<forall>(k, v)\<in>set m. case map_of n k of None \<Rightarrow> False | Some w \<Rightarrow> sameTree v w"
    by (auto split: cfg.splits)
  from Tree.prems(2) u have dn: "distinct (map fst n)" by simp
  have "scalarLeaves w" if kw: "(k, w) \<in> set n" for k w
  proof -
    from entry_lookup [OF keys dn ent kw]
    obtain v where v: "(k, v) \<in> set m" "sameTree v w" by blast
    moreover have "wfTree w" using Tree.prems(2) u kw by auto
    moreover have "scalarLeaves v" using Tree.prems(3) v(1) by auto
    ultimately show ?thesis using Tree.IH [of "(k, v)" v w] by simp
  qed
  with u show ?case by auto
qed


subsection \<open>The walk over trees that agree\<close>

lemma matches_sub:
  assumes "sameTree (Tree m) (Tree n)" "wfTree (Tree n)" "scalarLeaves (Tree n)"
  shows "matches m n"
  unfolding matches_def
proof (clarify)
  fix k w assume kw: "(k, w) \<in> set n"
  from assms(1) have keys: "set (map fst m) = set (map fst n)"
    and ent: "\<forall>(k, v)\<in>set m. case map_of n k of None \<Rightarrow> False | Some w \<Rightarrow> sameTree v w"
    by simp_all
  from assms(2) have dn: "distinct (map fst n)" by simp
  from entry_lookup [OF keys dn ent kw]
  obtain v where "map_of m k = Some v" "sameTree v w" by blast
  moreover have "scalarLeaves w" "wfTree w" using assms(2,3) kw by auto
  ultimately show "\<exists>v. map_of m k = Some v \<and> sameTree v w \<and> scalarLeaves w \<and> wfTree w" by blast
qed

lemma walk_matches: "matches prev es \<Longrightarrow> walkMapForChange prev es key = Inr []"
proof (induction prev es key rule: walkMapForChange.induct)
  case (1 previousMap changedKey)
  show ?case by simp
next
  case (2 previousMap updatedKey updatedVal rest changedKey)
  from "2.prems" obtain v where v: "map_of previousMap updatedKey = Some v"
    "sameTree v updatedVal" "scalarLeaves updatedVal" "wfTree updatedVal"
    and rest: "matches previousMap rest"
    by (auto simp: matches_def)
  show ?case
  proof (cases updatedVal)
    case (Scalar a)
    with v have "v = Scalar a" by (cases v) (auto split: cfg.splits)
    have "walkMapForChange previousMap rest changedKey = Inr []"
      using "2.IH"(1) [of v a False] v Scalar \<open>v = Scalar a\<close> rest by simp
    with Scalar v \<open>v = Scalar a\<close> show ?thesis by simp
  next
    case (Sequence xs)
    with v show ?thesis by simp
  next
    case (Tree n)
    with v obtain m where m: "v = Tree m" by (cases v) (auto split: cfg.splits)
    have "matches m n" using matches_sub v m Tree by blast
    then have sub: "walkMapForChange m n (buildNewKey changedKey updatedKey) = Inr []"
      using "2.IH"(3) v m Tree by simp
    have "walkMapForChange previousMap rest changedKey = Inr []"
      using "2.IH"(4) [OF v(1) Tree m sub] rest by simp
    with sub v m Tree show ?thesis by simp
  qed
qed

lemma walk_skip:
  assumes "map_of prev k = Some v" "sameTree v w" "scalarLeaves w" "wfTree w"
  shows "walkMapForChange prev ((k, w) # rest) key = walkMapForChange prev rest key"
proof (cases w)
  case (Scalar a)
  with assms(2) have "v = Scalar a" by (cases v) (auto split: cfg.splits)
  with Scalar assms(1) show ?thesis by simp
next
  case (Sequence xs)
  with assms(3) show ?thesis by simp
next
  case (Tree n)
  with assms(2) obtain m where m: "v = Tree m" by (cases v) (auto split: cfg.splits)
  have "matches m n" using matches_sub assms m Tree by blast
  then have "walkMapForChange m n (buildNewKey key k) = Inr []" by (rule walk_matches)
  with assms(1) m Tree show ?thesis by simp
qed


subsection \<open>The walk over trees that differ in one leaf\<close>







subsection \<open>The diff of two scalar-leaved trees\<close>


lemma structuralDiff_same:
  assumes "sameTree (Tree prev) (Tree upd)" "wfTree (Tree prev)" "wfTree (Tree upd)"
    "scalarLeaves (Tree prev)" "scalarLeaves (Tree upd)"
  shows "walkMapForChange prev upd [] = Inr [] \<and> walkMapForChange upd prev [] = Inr [] \<and>
         structuralDiff prev upd = Inr []"
proof -
  have "matches prev upd" using assms(1,3,5) by (rule matches_sub)
  then have fwd: "walkMapForChange prev upd [] = Inr []" by (rule walk_matches)
  have "sameTree (Tree upd) (Tree prev)" using assms(2,3,1) by (rule sameTree_sym)
  then have "matches upd prev" using assms(2,4) by (rule matches_sub)
  then have bwd: "walkMapForChange upd prev [] = Inr []" by (rule walk_matches)
  from fwd bwd show ?thesis by (simp add: structuralDiff_def)
qed


lemma structuralDiff_added_key:
  assumes absent: "map_of prev k = None" and present: "map_of upd k = Some v"
    and same: "sameTree (Tree prev) (Tree (filter (\<lambda>e. fst e \<noteq> k) upd))"
    and wfp: "wfTree (Tree prev)" and wfu: "wfTree (Tree upd)"
    and sc: "scalarLeaves (Tree prev)"
  shows "structuralDiff prev upd = Inr k"
proof -
  let ?rest = "filter (\<lambda>e. fst e \<noteq> k) upd"
  from wfu have du: "distinct (map fst upd)" by simp
  have wfr: "wfTree (Tree ?rest)" using wfu by (auto simp: distinct_map_filter)
  have scr: "scalarLeaves (Tree ?rest)" using same wfr sc by (rule sameTree_scalarLeaves)
  have m: "matches prev ?rest" using same wfr scr by (rule matches_sub)
  have fwd: "walkMapForChange prev es [] = Inr (if k \<in> fst ` set es then k else [])"
    if "set es \<subseteq> set upd" for es
    using that
  proof (induction es)
    case Nil
    show ?case by simp
  next
    case (Cons e es)
    obtain k' w where e: "e = (k', w)" by (cases e)
    show ?case
    proof (cases "k' = k")
      case True
      with e absent show ?thesis by (simp add: buildNewKey_def)
    next
      case False
      with e Cons.prems have "(k', w) \<in> set ?rest" by simp
      with m obtain v' where "map_of prev k' = Some v'" "sameTree v' w" "scalarLeaves w" "wfTree w"
        by (auto simp: matches_def)
      then have "walkMapForChange prev ((k', w) # es) [] = walkMapForChange prev es []"
        by (rule walk_skip)
      with Cons e False show ?thesis by auto
    qed
  qed
  from present have "(k, v) \<in> set upd" by (rule map_of_SomeD)
  then have "k \<in> fst ` set upd" by force
  with fwd [of upd] have f: "walkMapForChange prev upd [] = Inr k" by simp
  show ?thesis
  proof (cases "k = []")
    case False
    with f show ?thesis by (simp add: structuralDiff_def)
  next
    case True
    have "sameTree (Tree ?rest) (Tree prev)" using wfp wfr same by (rule sameTree_sym)
    then have "matches ?rest prev" using wfp sc by (rule matches_sub)
    then have "matches upd prev"
      unfolding matches_def
    proof (clarify)
      fix a b assume "\<forall>(k, w)\<in>set prev. \<exists>v. map_of ?rest k = Some v \<and> sameTree v w \<and> scalarLeaves w \<and> wfTree w"
        and ab: "(a, b) \<in> set prev"
      then obtain x where x: "map_of ?rest a = Some x" "sameTree x b" "scalarLeaves b" "wfTree b"
        by blast
      then have "(a, x) \<in> set upd" by (auto dest: map_of_SomeD)
      with du have "map_of upd a = Some x" by simp
      with x show "\<exists>v. map_of upd a = Some v \<and> sameTree v b \<and> scalarLeaves b \<and> wfTree b" by blast
    qed
    then have "walkMapForChange upd prev [] = Inr []" by (rule walk_matches)
    with f True show ?thesis by (simp add: structuralDiff_def)
  qed
qed

text \<open>
  Claim C1. For two trees that differ in exactly one leaf at path \<open>p\<close> the diff returns
  \<open>p\<close>, for two identical trees it returns the empty key, for an added top-level key it
  returns that key. The three lemmas above give this for trees whose leaves are scalars
  (the value under an added key may be anything). A leaf
  that is a sequence is a slice in both trees, and the comparison of the walk panics on
  it: the diff of two trees that differ in one sequence leaf, and the diff of two
  identical trees with a sequence leaf, do not return.
\<close>

theorem structuralDiff_sequence_leaf_panics:
  "structuralDiff [(''A'', Sequence [Scalar ''1''])] [(''A'', Sequence [Scalar ''2''])]
     = Inl UncomparableType \<and>
   structuralDiff [(''A'', Sequence [Scalar ''1''])] [(''A'', Sequence [Scalar ''1''])]
     = Inl UncomparableType"
  by (simp add: structuralDiff_def)





section \<open>Properties of the authentication middleware\<close>

text \<open>
  The splitting of the header: there is always a first part, no part holds the separator,
  and the parts put back together with the separator are the header.
\<close>

lemma Split_not_Nil: "Split s sep \<noteq> []"
  by (induction s) (auto split: list.splits)

lemma Split_parts_free_of_sep: "p \<in> set (Split s sep) \<Longrightarrow> sep \<notin> set p"
proof (induction s arbitrary: p)
  case Nil
  then show ?case by simp
next
  case (Cons c cs)
  show ?case
  proof (cases "c = sep")
    case True
    with Cons show ?thesis by auto
  next
    case False
    obtain q qs where q: "Split cs sep = q # qs"
      using Split_not_Nil [of cs sep] by (cases "Split cs sep") auto
    with Cons.prems False have "p = c # q \<or> p \<in> set qs" by simp
    then show ?thesis
    proof
      assume "p = c # q"
      moreover have "sep \<notin> set q" using Cons.IH [of q] q by simp
      ultimately show ?thesis using False by auto
    next
      assume "p \<in> set qs"
      then show ?thesis using Cons.IH [of p] q by simp
    qed
  qed
qed

lemma Split_rejoin: "concat (map (\<lambda>p. sep # p) (Split s sep)) = sep # s"
proof (induction s)
  case Nil
  show ?case by simp
next
  case (Cons c cs)
  obtain q qs where q: "Split cs sep = q # qs"
    using Split_not_Nil [of cs sep] by (cases "Split cs sep") auto
  with Cons show ?case by auto
qed

text \<open>
  Claim C10. The handler calls the inner handler exactly when the header splits on spaces
  into at least two parts, the first is "Bearer" up to the case of its letters, and
  \<^verbatim>\<open>IsJWTValid\<close> of the second returns true with no error. It answers 500 when the check
  returns an error, and 401 when the token is not valid or the header is missing or
  malformed; in none of these cases is the inner handler called.
\<close>

theorem VaultAuthenticationHandlerFunc_outcomes:
  "(VaultAuthenticationHandlerFunc IsJWTValid r = Inner) =
     (2 \<le> length (Split (HeaderGet r) CHR '' '') \<and>
      EqualFold (Split (HeaderGet r) CHR '' '' ! 0) ''Bearer'' \<and>
      IsJWTValid (Split (HeaderGet r) CHR '' '' ! 1) = (True, None)) \<and>
   (2 \<le> length (Split (HeaderGet r) CHR '' '') \<and>
      EqualFold (Split (HeaderGet r) CHR '' '' ! 0) ''Bearer'' \<and>
      snd (IsJWTValid (Split (HeaderGet r) CHR '' '' ! 1)) \<noteq> None \<longrightarrow>
    VaultAuthenticationHandlerFunc IsJWTValid r = Error 500) \<and>
   (2 \<le> length (Split (HeaderGet r) CHR '' '') \<and>
      EqualFold (Split (HeaderGet r) CHR '' '' ! 0) ''Bearer'' \<and>
      IsJWTValid (Split (HeaderGet r) CHR '' '' ! 1) = (False, None) \<longrightarrow>
    VaultAuthenticationHandlerFunc IsJWTValid r = Error 401) \<and>
   (\<not> (2 \<le> length (Split (HeaderGet r) CHR '' '') \<and>
        EqualFold (Split (HeaderGet r) CHR '' '' ! 0) ''Bearer'') \<longrightarrow>
    VaultAuthenticationHandlerFunc IsJWTValid r = Error 401) \<and>
   (Authorization r = None \<longrightarrow> VaultAuthenticationHandlerFunc IsJWTValid r = Error 401)"
proof -
  obtain valid err where v: "IsJWTValid (Split (HeaderGet r) CHR '' '' ! 1) = (valid, err)"
    by (cases "IsJWTValid (Split (HeaderGet r) CHR '' '' ! 1)")
  have missing: "Authorization r = None \<Longrightarrow> length (Split (HeaderGet r) CHR '' '') = 1"
    by (simp add: HeaderGet_def)
  show ?thesis
    using v missing
    by (cases err; cases valid)
      (auto simp: VaultAuthenticationHandlerFunc_def Let_def StatusInternalServerError_def
        StatusUnauthorized_def)
qed

theorem VaultAuthenticationHandlerFunc_outcomes_witness:
  "VaultAuthenticationHandlerFunc (\<lambda>t. (t = ''good'', if t = ''broken'' then Some ''vault down'' else None))
      \<lparr>Authorization = Some ''bearer good''\<rparr> = Inner \<and>
   VaultAuthenticationHandlerFunc (\<lambda>t. (t = ''good'', if t = ''broken'' then Some ''vault down'' else None))
      \<lparr>Authorization = Some ''Bearer broken''\<rparr> = Error 500 \<and>
   VaultAuthenticationHandlerFunc (\<lambda>t. (t = ''good'', if t = ''broken'' then Some ''vault down'' else None))
      \<lparr>Authorization = Some ''BEARER bad''\<rparr> = Error 401 \<and>
   VaultAuthenticationHandlerFunc (\<lambda>t. (t = ''good'', if t = ''broken'' then Some ''vault down'' else None))
      \<lparr>Authorization = Some ''Basic good''\<rparr> = Error 401 \<and>
   VaultAuthenticationHandlerFunc (\<lambda>t. (t = ''good'', if t = ''broken'' then Some ''vault down'' else None))
      \<lparr>Authorization = None\<rparr> = Error 401"
proof -
  let ?v = "\<lambda>t. (t = ''good'', if t = ''broken'' then Some ''vault down'' else None)"
  have s: "Split ''bearer good'' CHR '' '' = [''bearer'', ''good'']"
    "Split ''Bearer broken'' CHR '' '' = [''Bearer'', ''broken'']"
    "Split ''BEARER bad'' CHR '' '' = [''BEARER'', ''bad'']"
    "Split ''Basic good'' CHR '' '' = [''Basic'', ''good'']"
    by simp_all
  have e: "EqualFold ''bearer'' ''Bearer''" "EqualFold ''Bearer'' ''Bearer''"
    "EqualFold ''BEARER'' ''Bearer''" "\<not> EqualFold ''Basic'' ''Bearer''"
    by (simp_all add: EqualFold_def toLower_def)
  show ?thesis
    using VaultAuthenticationHandlerFunc_outcomes [of ?v "\<lparr>Authorization = Some ''bearer good''\<rparr>"]
      VaultAuthenticationHandlerFunc_outcomes [of ?v "\<lparr>Authorization = Some ''Bearer broken''\<rparr>"]
      VaultAuthenticationHandlerFunc_outcomes [of ?v "\<lparr>Authorization = Some ''BEARER bad''\<rparr>"]
      VaultAuthenticationHandlerFunc_outcomes [of ?v "\<lparr>Authorization = Some ''Basic good''\<rparr>"]
      VaultAuthenticationHandlerFunc_outcomes [of ?v "\<lparr>Authorization = None\<rparr>"]
      s e
    by (simp add: HeaderGet_def)
qed

section \<open>Properties of the dispatcher\<close>

lemma telemetryChanged_category: "e \<in> set (telemetryChanged cp ext s) \<Longrightarrow> categoryOf e = TelemetryCategory"
  by (auto simp: telemetryChanged_def Let_def split: sum.splits if_splits)

lemma applyWritableUpdates_merged:
  "fst (applyWritableUpdates cp ext serviceConfig raw) = fst (MergeValues ext serviceConfig raw)"
  by (simp add: applyWritableUpdates_def Let_def)

text \<open>
  Claim C6. An update merged into the configuration fires side effects of at most one
  category, chosen in the order log level, insecure secrets, telemetry interval, generic
  notification; when the log level changed, the only effect is the new logging threshold,
  and neither the secrets nor the telemetry branch fires.
\<close>

theorem applyWritableUpdates_one_category:
  assumes "applyWritableUpdates cp ext serviceConfig raw = (merged, effs)"
  shows "(\<forall>e\<in>set effs. \<forall>e'\<in>set effs. categoryOf e = categoryOf e') \<and>
    (LogLevel merged \<noteq> LogLevel serviceConfig \<longrightarrow> effs = [SetLogLevel (LogLevel merged)]) \<and>
    (LogLevel merged = LogLevel serviceConfig \<and> InsecureSecrets merged \<noteq> None \<and>
       \<not> DeepEqual (InsecureSecrets merged) (InsecureSecrets serviceConfig) \<longrightarrow>
       (\<forall>e\<in>set effs. categoryOf e = SecretsCategory)) \<and>
    (LogLevel merged = LogLevel serviceConfig \<and>
       \<not> (InsecureSecrets merged \<noteq> None \<and>
          \<not> DeepEqual (InsecureSecrets merged) (InsecureSecrets serviceConfig)) \<and>
       TelemetryInterval merged \<noteq> TelemetryInterval serviceConfig \<longrightarrow>
       (\<forall>e\<in>set effs. categoryOf e = TelemetryCategory)) \<and>
    (LogLevel merged = LogLevel serviceConfig \<and>
       \<not> (InsecureSecrets merged \<noteq> None \<and>
          \<not> DeepEqual (InsecureSecrets merged) (InsecureSecrets serviceConfig)) \<and>
       TelemetryInterval merged = TelemetryInterval serviceConfig \<longrightarrow>
       (\<forall>e\<in>set effs. categoryOf e = NotificationCategory))"
proof -
  from assms have m: "merged = fst (MergeValues ext serviceConfig raw)"
    using applyWritableUpdates_merged [of cp ext serviceConfig raw] by simp
  consider (log) "LogLevel merged \<noteq> LogLevel serviceConfig"
    | (sec) "LogLevel merged = LogLevel serviceConfig" "InsecureSecrets merged \<noteq> None"
        "\<not> DeepEqual (InsecureSecrets merged) (InsecureSecrets serviceConfig)"
    | (tel) "LogLevel merged = LogLevel serviceConfig"
        "\<not> (InsecureSecrets merged \<noteq> None \<and>
          \<not> DeepEqual (InsecureSecrets merged) (InsecureSecrets serviceConfig))"
        "TelemetryInterval merged \<noteq> TelemetryInterval serviceConfig"
    | (rest) "LogLevel merged = LogLevel serviceConfig"
        "\<not> (InsecureSecrets merged \<noteq> None \<and>
          \<not> DeepEqual (InsecureSecrets merged) (InsecureSecrets serviceConfig))"
        "TelemetryInterval merged = TelemetryInterval serviceConfig"
    by blast
  then show ?thesis
  proof cases
    case log
    with assms m have "effs = [SetLogLevel (LogLevel merged)]"
      by (auto simp: applyWritableUpdates_def Let_def)
    with log show ?thesis by simp
  next
    case sec
    with assms m have "effs = (if secretProviderExt cp then
               map SecretUpdatedAtSecretName
                 (getSecretNamesChanged (entriesOf (InsecureSecrets serviceConfig))
                    (entriesOf (InsecureSecrets merged)))
             else [])"
      by (auto simp: applyWritableUpdates_def Let_def)
    then have "\<forall>e\<in>set effs. categoryOf e = SecretsCategory" by auto
    with sec show ?thesis by auto
  next
    case tel
    with assms m have "effs = telemetryChanged cp ext (TelemetryInterval merged)"
      by (auto simp: applyWritableUpdates_def Let_def)
    then have "\<forall>e\<in>set effs. categoryOf e = TelemetryCategory"
      by (simp add: telemetryChanged_category)
    with tel show ?thesis by auto
  next
    case rest
    with assms m have "effs = (if configUpdated cp then [ConfigUpdated] else [])"
      by (auto simp: applyWritableUpdates_def Let_def)
    then have "\<forall>e\<in>set effs. categoryOf e = NotificationCategory" by auto
    with rest show ?thesis by auto
  qed
qed

theorem applyWritableUpdates_one_category_witness:
  "applyWritableUpdates fullProcessor
      (exampleExternals (exampleConfig\<lparr>LogLevel := ''DEBUG''\<rparr>)) exampleConfig None
     = (exampleConfig\<lparr>LogLevel := ''DEBUG''\<rparr>, [SetLogLevel ''DEBUG'']) \<and>
   LogLevel (exampleConfig\<lparr>LogLevel := ''DEBUG''\<rparr>) \<noteq> LogLevel exampleConfig \<and>
   categoryOf (SetLogLevel ''DEBUG'') = LogLevelCategory"
proof -
  have run: "applyWritableUpdates fullProcessor
      (exampleExternals (exampleConfig\<lparr>LogLevel := ''DEBUG''\<rparr>)) exampleConfig None
     = (exampleConfig\<lparr>LogLevel := ''DEBUG''\<rparr>, [SetLogLevel ''DEBUG''])"
    by (simp add: applyWritableUpdates_def exampleExternals_def exampleConfig_def Let_def)
  from applyWritableUpdates_one_category [OF run] run show ?thesis
    by (simp add: exampleConfig_def)
qed

lemma example_parse_zero: "ParseDuration (exampleExternals target) ''0s'' = Inr 0"
  by (simp add: exampleExternals_def)

lemma example_merge: "MergeValues (exampleExternals target) cfg raw = (target, None)"
  by (simp add: exampleExternals_def)

lemma MaxInt64_greatest: "sint (d :: Duration) \<le> sint MaxInt64"
proof -
  have "sint d < 2 ^ 63" using sint_lt [of d] by simp
  moreover have "sint MaxInt64 = 2 ^ 63 - 1" by (simp add: MaxInt64_def)
  ultimately show ?thesis by simp
qed

lemma telemetry_branch:
  assumes "applyWritableUpdates cp ext serviceConfig raw = (merged, effs)"
    and "LogLevel merged = LogLevel serviceConfig"
    and "InsecureSecrets merged = None \<or>
         DeepEqual (InsecureSecrets merged) (InsecureSecrets serviceConfig)"
    and "TelemetryInterval merged \<noteq> TelemetryInterval serviceConfig"
  shows "effs = telemetryChanged cp ext (TelemetryInterval merged)"
proof -
  from assms(1) have m: "merged = fst (MergeValues ext serviceConfig raw)"
    using applyWritableUpdates_merged [of cp ext serviceConfig raw] by simp
  with assms show ?thesis
    by (auto simp: applyWritableUpdates_def Let_def)
qed

text \<open>
  Claim C7, as stated: a telemetry interval that parses to zero resets the reporting
  interval to the greatest duration. Without a metrics manager in the container the
  change from 30s to 0s resets nothing.
\<close>

theorem telemetry_interval_zero_without_manager:
  "applyWritableUpdates (fullProcessor\<lparr>metricsManager := False\<rparr>)
      (exampleExternals (exampleConfig\<lparr>TelemetryInterval := ''0s''\<rparr>)) exampleConfig None
     = (exampleConfig\<lparr>TelemetryInterval := ''0s''\<rparr>, []) \<and>
   ParseDuration (exampleExternals (exampleConfig\<lparr>TelemetryInterval := ''0s''\<rparr>)) ''0s'' = Inr 0 \<and>
   TelemetryInterval exampleConfig = ''30s''"
  by (simp add: applyWritableUpdates_def telemetryChanged_def example_parse_zero example_merge
      exampleConfig_def fullProcessor_def Let_def)

text \<open>
  Claim C7, amended: when the dispatcher handles a change of the telemetry interval (the
  log level is unchanged and the secrets branch is not taken), the new value is parsed as
  a duration. If the parsing fails nothing is reset. If it succeeds and a metrics manager
  is registered, the interval is reset to the greatest duration when the parsed one is
  zero, and to the parsed duration otherwise. Without a metrics manager nothing is reset.
  The greatest duration is not zero and no duration exceeds it.
\<close>

theorem telemetry_interval_change:
  assumes "applyWritableUpdates cp ext serviceConfig raw = (merged, effs)"
    and "LogLevel merged = LogLevel serviceConfig"
    and "InsecureSecrets merged = None \<or>
         DeepEqual (InsecureSecrets merged) (InsecureSecrets serviceConfig)"
    and "TelemetryInterval merged \<noteq> TelemetryInterval serviceConfig"
  shows "(\<forall>err. ParseDuration ext (TelemetryInterval merged) = Inl err \<longrightarrow> effs = []) \<and>
    (ParseDuration ext (TelemetryInterval merged) = Inr 0 \<and> metricsManager cp \<longrightarrow>
       effs = [ResetInterval MaxInt64]) \<and>
    (\<forall>d. ParseDuration ext (TelemetryInterval merged) = Inr d \<and> d \<noteq> 0 \<and> metricsManager cp \<longrightarrow>
       effs = [ResetInterval d]) \<and>
    (\<not> metricsManager cp \<longrightarrow> effs = []) \<and>
    MaxInt64 \<noteq> 0 \<and> (\<forall>d :: Duration. sint d \<le> sint MaxInt64)"
proof -
  have e: "effs = telemetryChanged cp ext (TelemetryInterval merged)"
    using assms by (rule telemetry_branch)
  have a: "\<forall>err. ParseDuration ext (TelemetryInterval merged) = Inl err \<longrightarrow> effs = []"
    using e by (simp add: telemetryChanged_def)
  have b: "ParseDuration ext (TelemetryInterval merged) = Inr 0 \<and> metricsManager cp \<longrightarrow>
       effs = [ResetInterval MaxInt64]"
    using e by (simp add: telemetryChanged_def)
  have c: "\<forall>d. ParseDuration ext (TelemetryInterval merged) = Inr d \<and> d \<noteq> 0 \<and> metricsManager cp \<longrightarrow>
       effs = [ResetInterval d]"
    using e by (simp add: telemetryChanged_def)
  have d: "\<not> metricsManager cp \<longrightarrow> effs = []"
    using e by (simp add: telemetryChanged_def Let_def split: sum.splits)
  have m: "MaxInt64 \<noteq> 0" by (simp add: MaxInt64_def)
  have g: "\<forall>d :: Duration. sint d \<le> sint MaxInt64"
    using MaxInt64_greatest by (rule allI)
  from a b c d m g show ?thesis by (intro conjI)
qed

theorem telemetry_interval_change_witness:
  "applyWritableUpdates fullProcessor
      (exampleExternals (exampleConfig\<lparr>TelemetryInterval := ''0s''\<rparr>)) exampleConfig None
     = (exampleConfig\<lparr>TelemetryInterval := ''0s''\<rparr>, [ResetInterval MaxInt64]) \<and>
   ParseDuration (exampleExternals (exampleConfig\<lparr>TelemetryInterval := ''0s''\<rparr>)) ''0s'' = Inr 0 \<and>
   metricsManager fullProcessor \<and>
   LogLevel (exampleConfig\<lparr>TelemetryInterval := ''0s''\<rparr>) = LogLevel exampleConfig \<and>
   InsecureSecrets (exampleConfig\<lparr>TelemetryInterval := ''0s''\<rparr>) = None \<and>
   TelemetryInterval (exampleConfig\<lparr>TelemetryInterval := ''0s''\<rparr>) \<noteq> TelemetryInterval exampleConfig"
proof -
  let ?m = "exampleConfig\<lparr>TelemetryInterval := ''0s''\<rparr>"
  obtain effs where run: "applyWritableUpdates fullProcessor (exampleExternals ?m) exampleConfig None
      = (?m, effs)"
    by (simp add: applyWritableUpdates_def example_merge Let_def)
  have h: "LogLevel ?m = LogLevel exampleConfig"
    "InsecureSecrets ?m = None \<or> DeepEqual (InsecureSecrets ?m) (InsecureSecrets exampleConfig)"
    "TelemetryInterval ?m \<noteq> TelemetryInterval exampleConfig"
    by (simp_all add: exampleConfig_def)
  have p: "ParseDuration (exampleExternals ?m) (TelemetryInterval ?m) = Inr 0"
    "metricsManager fullProcessor"
    by (simp_all add: example_parse_zero fullProcessor_def)
  have "ParseDuration (exampleExternals ?m) (TelemetryInterval ?m) = Inr 0 \<and>
          metricsManager fullProcessor \<longrightarrow> effs = [ResetInterval MaxInt64]"
    using telemetry_interval_change [OF run h] by (rule conjunct1 [OF conjunct2])
  with p have "effs = [ResetInterval MaxInt64]" by blast
  with run h p show ?thesis by (simp add: exampleConfig_def)
qed

text \<open>
  Claim C9. When the insecure secrets are nil after the merge, no rotation callback fires,
  also when they were not nil before and the two maps are unequal; with the log level
  unchanged the update goes on to the telemetry check or to the generic notification.
\<close>

theorem nil_secrets_skip_rotation:
  assumes "applyWritableUpdates cp ext serviceConfig raw = (merged, effs)"
    and "InsecureSecrets merged = None"
  shows "(\<forall>e\<in>set effs. categoryOf e \<noteq> SecretsCategory) \<and>
    (LogLevel merged = LogLevel serviceConfig \<longrightarrow>
       effs = (if TelemetryInterval merged \<noteq> TelemetryInterval serviceConfig
               then telemetryChanged cp ext (TelemetryInterval merged)
               else if configUpdated cp then [ConfigUpdated] else []))"
proof -
  from assms(1) have m: "merged = fst (MergeValues ext serviceConfig raw)"
    using applyWritableUpdates_merged [of cp ext serviceConfig raw] by simp
  have fall: "effs = (if TelemetryInterval merged \<noteq> TelemetryInterval serviceConfig
               then telemetryChanged cp ext (TelemetryInterval merged)
               else if configUpdated cp then [ConfigUpdated] else [])"
    if "LogLevel merged = LogLevel serviceConfig"
    using that assms m by (auto simp: applyWritableUpdates_def Let_def)
  have "categoryOf e \<noteq> SecretsCategory" if e: "e \<in> set effs" for e
  proof (cases "LogLevel merged = LogLevel serviceConfig")
    case True
    from fall [OF True] e show ?thesis
      by (auto dest: telemetryChanged_category split: if_splits)
  next
    case False
    with assms m have "effs = [SetLogLevel (LogLevel merged)]"
      by (auto simp: applyWritableUpdates_def Let_def)
    with e show ?thesis by auto
  qed
  with fall show ?thesis by blast
qed

theorem nil_secrets_skip_rotation_witness:
  "applyWritableUpdates fullProcessor (exampleExternals exampleConfig)
      (exampleConfig\<lparr>InsecureSecrets :=
          Some [(''mqtt'', \<lparr>SecretName = ''mqtt'', SecretData = Some [''password'' \<mapsto> ''x'']\<rparr>)]\<rparr>) None
     = (exampleConfig, [ConfigUpdated]) \<and>
   InsecureSecrets exampleConfig = None \<and>
   \<not> DeepEqual (InsecureSecrets exampleConfig)
        (Some [(''mqtt'', \<lparr>SecretName = ''mqtt'', SecretData = Some [''password'' \<mapsto> ''x'']\<rparr>)]) \<and>
   categoryOf ConfigUpdated \<noteq> SecretsCategory"
proof -
  let ?p = "exampleConfig\<lparr>InsecureSecrets :=
          Some [(''mqtt'', \<lparr>SecretName = ''mqtt'', SecretData = Some [''password'' \<mapsto> ''x'']\<rparr>)]\<rparr>"
  obtain effs where run: "applyWritableUpdates fullProcessor (exampleExternals exampleConfig) ?p None
      = (exampleConfig, effs)"
    by (simp add: applyWritableUpdates_def example_merge Let_def)
  have n: "InsecureSecrets exampleConfig = None" by (simp add: exampleConfig_def)
  have l: "configUpdated fullProcessor"
    by (simp add: fullProcessor_def)
  from nil_secrets_skip_rotation [OF run n] l have "effs = [ConfigUpdated]" by simp
  with run n show ?thesis by simp
qed

section \<open>Properties of the secret names\<close>















section \<open>Properties of the private-override check\<close>


lemma isKeyInPrivate_error:
  "GetConfigurationKeys privateConfigClient writableKey = (keys, Some err) \<Longrightarrow>
   isKeyInPrivate privateConfigClient changedKey"
  by (simp add: isKeyInPrivate_def)


lemma override_not_applied:
  "isPrivateOverride ext previous updated privateConfigClient = Inr True \<Longrightarrow>
   processCommonConfigChange cp ext cfg previous updated privateConfigClient = Inr (cfg, [])"
  by (simp add: processCommonConfigChange_def)

lemma isPrivateOverride_diff:
  assumes "ConvertToMap ext previous = Inr previousMap" "ConvertToMap ext updated = Inr updatedMap"
    and "structuralDiff previousMap updatedMap = Inr changedKey"
  shows "isPrivateOverride ext previous updated privateConfigClient =
           Inr (changedKey = [] \<or> isKeyInPrivate privateConfigClient changedKey)"
  using assms by (simp add: isPrivateOverride_def)

text \<open>
  Claim C5. For a push on a common section, if the conversion of the previous or of the
  updated snapshot to a map fails, or the diff finds no changed key in either direction,
  or the query of the private section's keys fails, the change is treated as a private
  override, and a change treated so is not applied: the service configuration is
  returned as it was and no effect fires.
\<close>

theorem isPrivateOverride_conservative:
  "(\<forall>err. ConvertToMap ext previous = Inl err \<longrightarrow>
      isPrivateOverride ext previous updated privateConfigClient = Inr True) \<and>
   (\<forall>previousMap err. ConvertToMap ext previous = Inr previousMap \<and>
      ConvertToMap ext updated = Inl err \<longrightarrow>
      isPrivateOverride ext previous updated privateConfigClient = Inr True) \<and>
   (\<forall>previousMap updatedMap. ConvertToMap ext previous = Inr previousMap \<and>
      ConvertToMap ext updated = Inr updatedMap \<and>
      walkMapForChange previousMap updatedMap [] = Inr [] \<and>
      walkMapForChange updatedMap previousMap [] = Inr [] \<longrightarrow>
      isPrivateOverride ext previous updated privateConfigClient = Inr True) \<and>
   (\<forall>previousMap updatedMap changedKey keys err. ConvertToMap ext previous = Inr previousMap \<and>
      ConvertToMap ext updated = Inr updatedMap \<and>
      structuralDiff previousMap updatedMap = Inr changedKey \<and>
      GetConfigurationKeys privateConfigClient writableKey = (keys, Some err) \<longrightarrow>
      isPrivateOverride ext previous updated privateConfigClient = Inr True) \<and>
   (isPrivateOverride ext previous updated privateConfigClient = Inr True \<longrightarrow>
      processCommonConfigChange cp ext cfg previous updated privateConfigClient = Inr (cfg, []))"
proof (intro conjI allI impI)
  fix err assume "ConvertToMap ext previous = Inl err"
  then show "isPrivateOverride ext previous updated privateConfigClient = Inr True"
    by (simp add: isPrivateOverride_def)
next
  fix previousMap err
  assume "ConvertToMap ext previous = Inr previousMap \<and> ConvertToMap ext updated = Inl err"
  then show "isPrivateOverride ext previous updated privateConfigClient = Inr True"
    by (simp add: isPrivateOverride_def)
next
  fix previousMap updatedMap
  assume a: "ConvertToMap ext previous = Inr previousMap \<and>
      ConvertToMap ext updated = Inr updatedMap \<and>
      walkMapForChange previousMap updatedMap [] = Inr [] \<and>
      walkMapForChange updatedMap previousMap [] = Inr []"
  then have "structuralDiff previousMap updatedMap = Inr []"
    by (simp add: structuralDiff_def)
  with a show "isPrivateOverride ext previous updated privateConfigClient = Inr True"
    by (simp add: isPrivateOverride_diff)
next
  fix previousMap updatedMap changedKey keys err
  assume a: "ConvertToMap ext previous = Inr previousMap \<and>
      ConvertToMap ext updated = Inr updatedMap \<and>
      structuralDiff previousMap updatedMap = Inr changedKey \<and>
      GetConfigurationKeys privateConfigClient writableKey = (keys, Some err)"
  then have "isKeyInPrivate privateConfigClient changedKey"
    by (simp add: isKeyInPrivate_error)
  with a show "isPrivateOverride ext previous updated privateConfigClient = Inr True"
    by (simp add: isPrivateOverride_diff)
next
  assume "isPrivateOverride ext previous updated privateConfigClient = Inr True"
  then show "processCommonConfigChange cp ext cfg previous updated privateConfigClient = Inr (cfg, [])"
    by (rule override_not_applied)
qed


lemma example_convert:
  "ConvertToMap (exampleExternals target) (Some m) = Inr m"
  "ConvertToMap (exampleExternals target) None = Inl ''nil''"
  by (simp_all add: exampleExternals_def)

lemma example_filter:
  "RemoveUnusedSettings (exampleExternals target) raw baseKey usedKeys = (raw, None)"
  by (simp add: exampleExternals_def)

lemma example_diff: "structuralDiff commonBefore commonAfter = Inr ''LogLevel''"
  by (simp add: structuralDiff_def commonBefore_def commonAfter_def buildNewKey_def)

theorem isPrivateOverride_conservative_witness:
  "processCommonConfigChange fullProcessor (exampleExternals (exampleConfig\<lparr>LogLevel := ''DEBUG''\<rparr>))
      exampleConfig None (Some commonAfter) privateClient = Inr (exampleConfig, []) \<and>
   processCommonConfigChange fullProcessor (exampleExternals (exampleConfig\<lparr>LogLevel := ''DEBUG''\<rparr>))
      exampleConfig (Some commonBefore) (Some commonBefore) privateClient = Inr (exampleConfig, []) \<and>
   processCommonConfigChange fullProcessor (exampleExternals (exampleConfig\<lparr>LogLevel := ''DEBUG''\<rparr>))
      exampleConfig (Some commonBefore) (Some commonAfter) failingClient = Inr (exampleConfig, [])"
proof -
  let ?ext = "exampleExternals (exampleConfig\<lparr>LogLevel := ''DEBUG''\<rparr>)"
  note c5 = isPrivateOverride_conservative [where ext = ?ext and cp = fullProcessor
      and cfg = exampleConfig]
  have walk: "walkMapForChange commonBefore commonBefore [] = Inr []"
    by (simp add: commonBefore_def)
  have keys: "GetConfigurationKeys failingClient writableKey = ([], Some ''provider unavailable'')"
    by (simp add: failingClient_def)
  have o1: "isPrivateOverride ?ext None (Some commonAfter) privateClient = Inr True"
    using c5 [of None "Some commonAfter" privateClient] example_convert(2) [of "exampleConfig\<lparr>LogLevel := ''DEBUG''\<rparr>"]
    by blast
  have o2: "isPrivateOverride ?ext (Some commonBefore) (Some commonBefore) privateClient = Inr True"
    using c5 [of "Some commonBefore" "Some commonBefore" privateClient]
      example_convert(1) [of "exampleConfig\<lparr>LogLevel := ''DEBUG''\<rparr>" commonBefore] walk
    by blast
  have o3: "isPrivateOverride ?ext (Some commonBefore) (Some commonAfter) failingClient = Inr True"
    using c5 [of "Some commonBefore" "Some commonAfter" failingClient]
      example_convert(1) [of "exampleConfig\<lparr>LogLevel := ''DEBUG''\<rparr>" commonBefore]
      example_convert(1) [of "exampleConfig\<lparr>LogLevel := ''DEBUG''\<rparr>" commonAfter]
      example_diff keys
    by blast
  from o1 c5 [of None "Some commonAfter" privateClient]
  have p1: "processCommonConfigChange fullProcessor ?ext exampleConfig None (Some commonAfter)
      privateClient = Inr (exampleConfig, [])" by blast
  from o2 c5 [of "Some commonBefore" "Some commonBefore" privateClient]
  have p2: "processCommonConfigChange fullProcessor ?ext exampleConfig (Some commonBefore)
      (Some commonBefore) privateClient = Inr (exampleConfig, [])" by blast
  from o3 c5 [of "Some commonBefore" "Some commonAfter" failingClient]
  have p3: "processCommonConfigChange fullProcessor ?ext exampleConfig (Some commonBefore)
      (Some commonAfter) failingClient = Inr (exampleConfig, [])" by blast
  from p1 p2 p3 show ?thesis by (intro conjI)
qed


section \<open>Properties of the watch loops\<close>

lemma private_no_push:
  "pushes evs = [] \<Longrightarrow>
   watchedConfig (listenForPrivateChanges cp ext configClient baseKey evs st) = watchedConfig st \<and>
   set (fired (listenForPrivateChanges cp ext configClient baseKey evs st))
     \<subseteq> set (fired st) \<union> {StopWatching}"
proof (induction evs)
  case Nil
  show ?case by auto
next
  case (Cons e evs)
  then show ?case by (cases e) auto
qed

lemma private_first_push:
  "isFirstUpdate st \<Longrightarrow> length (pushes evs) \<le> 1 \<Longrightarrow>
   watchedConfig (listenForPrivateChanges cp ext configClient baseKey evs st) = watchedConfig st \<and>
   set (fired (listenForPrivateChanges cp ext configClient baseKey evs st))
     \<subseteq> set (fired st) \<union> {StopWatching}"
proof (induction evs)
  case Nil
  show ?case by auto
next
  case (Cons e evs)
  show ?case
  proof (cases e)
    case (Update raw)
    with Cons.prems have none: "pushes evs = []" by simp
    have u: "privateUpdate cp ext configClient baseKey st raw = st\<lparr>isFirstUpdate := False\<rparr>"
      using Cons.prems(1) by (simp add: privateUpdate_def Let_def)
    from private_no_push [OF none, of cp ext configClient baseKey "st\<lparr>isFirstUpdate := False\<rparr>"]
    show ?thesis using Update u by simp
  next
    case Done
    then show ?thesis by auto
  next
    case (StreamError ex)
    with Cons show ?thesis by simp
  next
    case Closed
    then show ?thesis by auto
  qed
qed

lemma common_no_push:
  "pushes evs = [] \<Longrightarrow>
   \<exists>st'. commonLoop cp ext commonConfigClient privateConfigClient baseKey evs st = Inr st' \<and>
     watchedConfig st' = watchedConfig st \<and>
     set (fired st') \<subseteq> set (fired st) \<union> {StopWatching} \<and>
     previousCommonWritable st' = previousCommonWritable st"
proof (induction evs)
  case Nil
  show ?case by auto
next
  case (Cons e evs)
  then show ?case by (cases e) auto
qed

lemma common_first_update:
  "isFirstUpdate st \<Longrightarrow>
   commonUpdate cp ext commonConfigClient privateConfigClient baseKey st raw =
     Inr (st\<lparr>isFirstUpdate := False,
            previousCommonWritable :=
              fst (RemoveUnusedSettings ext raw baseKey
                     (set (fst (GetConfigurationKeys commonConfigClient writableKey))))\<rparr>)"
  by (simp add: commonUpdate_def Let_def)

lemma common_first_push:
  "isFirstUpdate st \<Longrightarrow> length (pushes evs) \<le> 1 \<Longrightarrow>
   \<exists>st'. commonLoop cp ext commonConfigClient privateConfigClient baseKey evs st = Inr st' \<and>
     watchedConfig st' = watchedConfig st \<and>
     set (fired st') \<subseteq> set (fired st) \<union> {StopWatching} \<and>
     (previousCommonWritable st' = previousCommonWritable st \<or>
      previousCommonWritable st' \<in>
        (\<lambda>raw. fst (RemoveUnusedSettings ext raw baseKey
                       (set (fst (GetConfigurationKeys commonConfigClient writableKey)))))
          ` set (pushes evs))"
proof (induction evs)
  case Nil
  show ?case by auto
next
  case (Cons e evs)
  show ?case
  proof (cases e)
    case (Update raw)
    with Cons.prems have none: "pushes evs = []" by simp
    let ?st = "st\<lparr>isFirstUpdate := False,
            previousCommonWritable :=
              fst (RemoveUnusedSettings ext raw baseKey
                     (set (fst (GetConfigurationKeys commonConfigClient writableKey))))\<rparr>"
    from common_no_push [OF none, of cp ext commonConfigClient privateConfigClient baseKey ?st]
    obtain st' where st': "commonLoop cp ext commonConfigClient privateConfigClient baseKey evs ?st = Inr st'"
      "watchedConfig st' = watchedConfig ?st"
      "set (fired st') \<subseteq> set (fired ?st) \<union> {StopWatching}"
      "previousCommonWritable st' = previousCommonWritable ?st"
      by blast
    have "commonLoop cp ext commonConfigClient privateConfigClient baseKey (e # evs) st = Inr st'"
      using Update st'(1)
        common_first_update [OF Cons.prems(1), of cp ext commonConfigClient privateConfigClient
          baseKey raw]
      by simp
    moreover have "watchedConfig st' = watchedConfig st" using st'(2) by simp
    moreover have "set (fired st') \<subseteq> set (fired st) \<union> {StopWatching}" using st'(3) by simp
    moreover have "previousCommonWritable st' \<in>
        (\<lambda>raw. fst (RemoveUnusedSettings ext raw baseKey
                       (set (fst (GetConfigurationKeys commonConfigClient writableKey)))))
          ` set (pushes (e # evs))"
      using st'(4) Update by simp
    ultimately show ?thesis by blast
  next
    case Done
    then show ?thesis by auto
  next
    case (StreamError ex)
    with Cons show ?thesis by simp
  next
    case Closed
    then show ?thesis by auto
  qed
qed

lemma custom_no_push:
  "pushes evs = [] \<Longrightarrow> Closed \<notin> set evs \<Longrightarrow>
   changedCallback (customLoop evs st) = changedCallback st"
proof (induction evs)
  case Nil
  show ?case by auto
next
  case (Cons e evs)
  then show ?case by (cases e) auto
qed

lemma custom_first_push:
  "customFirstUpdate st \<Longrightarrow> length (pushes evs) \<le> 1 \<Longrightarrow> Closed \<notin> set evs \<Longrightarrow>
   changedCallback (customLoop evs st) = changedCallback st"
proof (induction evs)
  case Nil
  show ?case by auto
next
  case (Cons e evs)
  show ?case
  proof (cases e)
    case (Update raw)
    with Cons.prems have none: "pushes evs = []" "Closed \<notin> set evs" by simp_all
    have "customUpdate st raw = st\<lparr>customFirstUpdate := False\<rparr>"
      using Cons.prems(1) by (simp add: customUpdate_def)
    with custom_no_push [OF none, of "st\<lparr>customFirstUpdate := False\<rparr>"] Update
    show ?thesis by simp
  next
    case Done
    then show ?thesis by simp
  next
    case (StreamError ex)
    with Cons show ?thesis by simp
  next
    case Closed
    with Cons.prems show ?thesis by simp
  qed
qed

text \<open>
  Claim C4. A watch loop that receives at most one push leaves the configuration it
  shares with the service as it was before the watch and fires no effect of the
  dispatcher; this holds for the loop of the private section, for the loop of a common
  section, which records the filtered push as its previous snapshot and nothing else, and
  for the loop of a custom section, which does not call the callback.
\<close>

theorem first_push_discarded:
  assumes "length (pushes evs) \<le> 1"
  shows "watchedConfig (listenForPrivateChanges cp ext configClient baseKey evs (startWatch cfg)) = cfg \<and>
    set (fired (listenForPrivateChanges cp ext configClient baseKey evs (startWatch cfg)))
      \<subseteq> {StopWatching} \<and>
    (\<exists>st. listenForCommonChanges cp ext commonConfigClient privateConfigClient baseKey evs
             (startCommonWatch cfg) = Inr st \<and>
       watchedConfig st = cfg \<and> set (fired st) \<subseteq> {StopWatching} \<and>
       (previousCommonWritable st = None \<or>
        previousCommonWritable st \<in>
          (\<lambda>raw. fst (RemoveUnusedSettings ext raw (BuildBaseKey [baseKey, writableKey])
                         (set (fst (GetConfigurationKeys commonConfigClient writableKey)))))
            ` set (pushes evs))) \<and>
    listenForCommonChanges cp ext commonConfigClient privateConfigClient baseKey [Update raw]
        (startCommonWatch cfg)
      = Inr \<lparr>isFirstUpdate = False, watchedConfig = cfg, fired = [],
             previousCommonWritable =
               fst (RemoveUnusedSettings ext raw (BuildBaseKey [baseKey, writableKey])
                      (set (fst (GetConfigurationKeys commonConfigClient writableKey))))\<rparr> \<and>
    (Closed \<notin> set evs \<longrightarrow>
       changedCallback (ListenForCustomConfigChanges hasConfigClient evs) = [])"
proof -
  have p: "watchedConfig (listenForPrivateChanges cp ext configClient baseKey evs (startWatch cfg)) = cfg \<and>
    set (fired (listenForPrivateChanges cp ext configClient baseKey evs (startWatch cfg)))
      \<subseteq> {StopWatching}"
    using private_first_push [of "startWatch cfg" evs cp ext configClient baseKey] assms
    by (simp add: startWatch_def)
  have c: "\<exists>st. listenForCommonChanges cp ext commonConfigClient privateConfigClient baseKey evs
             (startCommonWatch cfg) = Inr st \<and>
       watchedConfig st = cfg \<and> set (fired st) \<subseteq> {StopWatching} \<and>
       (previousCommonWritable st = None \<or>
        previousCommonWritable st \<in>
          (\<lambda>raw. fst (RemoveUnusedSettings ext raw (BuildBaseKey [baseKey, writableKey])
                         (set (fst (GetConfigurationKeys commonConfigClient writableKey)))))
            ` set (pushes evs))"
    using common_first_push [of "startCommonWatch cfg" evs cp ext commonConfigClient
        privateConfigClient "BuildBaseKey [baseKey, writableKey]"] assms
    by (simp add: startCommonWatch_def listenForCommonChanges_def)
  have one: "listenForCommonChanges cp ext commonConfigClient privateConfigClient baseKey [Update raw]
        (startCommonWatch cfg)
      = Inr \<lparr>isFirstUpdate = False, watchedConfig = cfg, fired = [],
             previousCommonWritable =
               fst (RemoveUnusedSettings ext raw (BuildBaseKey [baseKey, writableKey])
                      (set (fst (GetConfigurationKeys commonConfigClient writableKey))))\<rparr>"
    by (simp add: listenForCommonChanges_def startCommonWatch_def commonUpdate_def Let_def)
  have k: "changedCallback (ListenForCustomConfigChanges hasConfigClient evs) = []"
    if "Closed \<notin> set evs"
    using custom_first_push [of startCustomWatch evs] assms that
    by (simp add: ListenForCustomConfigChanges_def startCustomWatch_def)
  from p c one k show ?thesis by blast
qed

theorem first_push_discarded_witness:
  "length (pushes [StreamError ''timeout'', Update (Some commonAfter)]) \<le> 1 \<and>
   watchedConfig (listenForPrivateChanges fullProcessor
       (exampleExternals (exampleConfig\<lparr>LogLevel := ''DEBUG''\<rparr>)) privateClient
       ''edgex/v3/core-data'' [StreamError ''timeout'', Update (Some commonAfter)]
       (startWatch exampleConfig)) = exampleConfig \<and>
   listenForCommonChanges fullProcessor
       (exampleExternals (exampleConfig\<lparr>LogLevel := ''DEBUG''\<rparr>)) privateClient failingClient
       ''edgex/v3/core-common-config-bootstrapper/all-services'' [Update (Some commonAfter)]
       (startCommonWatch exampleConfig)
     = Inr \<lparr>isFirstUpdate = False, watchedConfig = exampleConfig, fired = [],
            previousCommonWritable = Some commonAfter\<rparr> \<and>
   changedCallback (ListenForCustomConfigChanges True
       [StreamError ''timeout'', Update (Some commonAfter)]) = []"
proof -
  let ?evs = "[StreamError ''timeout'', Update (Some commonAfter)]"
  let ?ext = "exampleExternals (exampleConfig\<lparr>LogLevel := ''DEBUG''\<rparr>)"
  have one: "length (pushes ?evs) \<le> 1" by simp
  have open_stream: "Closed \<notin> set ?evs" by simp
  note c4 = first_push_discarded [OF one, where cp = fullProcessor and ext = ?ext
      and configClient = privateClient and baseKey = "''edgex/v3/core-data''"
      and cfg = exampleConfig and hasConfigClient = True]
  have a: "watchedConfig (listenForPrivateChanges fullProcessor ?ext privateClient
       ''edgex/v3/core-data'' ?evs (startWatch exampleConfig)) = exampleConfig"
    using c4 by blast
  have b: "changedCallback (ListenForCustomConfigChanges True ?evs) = []"
    using c4 open_stream by blast
  have "length (pushes [Update (Some commonAfter)]) \<le> 1" by simp
  note c4' = first_push_discarded [OF this, where cp = fullProcessor and ext = ?ext
      and commonConfigClient = privateClient and privateConfigClient = failingClient
      and baseKey = "''edgex/v3/core-common-config-bootstrapper/all-services''"
      and cfg = exampleConfig and raw = "Some commonAfter"]
  have c: "listenForCommonChanges fullProcessor ?ext privateClient failingClient
       ''edgex/v3/core-common-config-bootstrapper/all-services'' [Update (Some commonAfter)]
       (startCommonWatch exampleConfig)
     = Inr \<lparr>isFirstUpdate = False, watchedConfig = exampleConfig, fired = [],
            previousCommonWritable = Some commonAfter\<rparr>"
    using c4' by (simp add: example_filter)
  from one a c b show ?thesis by (intro conjI)
qed

end
